theory Spec2Isabelle
  imports Complex_Main "HOL-Library.Log_Nat"
begin

section \<open>Values received over the push channel\<close>

text \<open>
  A frame is handed to \<^verbatim>\<open>JSON.parse\<close>; the handler then works on the parsed value, typed
  \<^verbatim>\<open>Record<string, unknown>\<close> in the source but unchecked at run time.  A parsed value is a
  tree: an object is the list of its own properties (keys distinct after parsing), a number
  is the exact value of the finite double it denotes.  A JavaScript value that may be
  \<^verbatim>\<open>undefined\<close> is a \<open>json option\<close>, with \<open>None\<close> for \<^verbatim>\<open>undefined\<close>.
\<close>

datatype json =
    JNull
  | JBool bool
  | JNum rat
  | JStr string
  | JArr "json list"
  | JObj "(string \<times> json) list"

datatype js_error = TypeError | InvalidStateError

text \<open>
  Property read \<^verbatim>\<open>v.k\<close> on a parsed value other than \<^verbatim>\<open>null\<close>, for the keys the handler
  reads (\<^verbatim>\<open>type\<close>, \<^verbatim>\<open>stages\<close>, \<^verbatim>\<open>progress_pct\<close>, \<^verbatim>\<open>call_status\<close>): only an object can own
  them; on a number, string, boolean or array the read gives \<^verbatim>\<open>undefined\<close>.
\<close>

fun get_prop :: "json \<Rightarrow> string \<Rightarrow> json option" where
  "get_prop (JObj kvs) k = map_of kvs k"
| "get_prop _ k = None"

text \<open>The operator \<^verbatim>\<open>x ?? d\<close>: the default replaces \<^verbatim>\<open>undefined\<close> and \<^verbatim>\<open>null\<close> only.\<close>

fun nullish :: "json option \<Rightarrow> json \<Rightarrow> json" where
  "nullish None d = d"
| "nullish (Some JNull) d = d"
| "nullish (Some v) d = v"

text \<open>
  The test \<^verbatim>\<open>x.length === 0\<close> on a stored value that is not \<^verbatim>\<open>null\<close>: an array or a
  string has length zero exactly when it is empty, an object when it owns a property
  \<^verbatim>\<open>length\<close> equal to the number 0, and a number or boolean has no \<^verbatim>\<open>length\<close>.
\<close>

fun length_is_zero :: "json \<Rightarrow> bool" where
  "length_is_zero (JArr xs) = (xs = [])"
| "length_is_zero (JStr s) = (s = [])"
| "length_is_zero (JObj kvs) = (map_of kvs ''length'' = Some (JNum 0))"
| "length_is_zero _ = False"

text \<open>
  The value of \<^verbatim>\<open>x.length\<close>, as far as the dependency list of the effect compares it: two
  arrays (two strings) agree on it exactly when they have the same number of elements.
\<close>

fun js_length :: "json \<Rightarrow> json option" where
  "js_length (JArr xs) = Some (JNum (of_nat (length xs)))"
| "js_length (JStr s) = Some (JNum (of_nat (length s)))"
| "js_length (JObj kvs) = map_of kvs ''length''"
| "js_length _ = None"

section \<open>PipelineProgress: the per-job state and its message handler\<close>

text \<open>
  The four \<^verbatim>\<open>useState\<close> cells of the component, and the number of times the
  \<^verbatim>\<open>onComplete\<close> callback has been invoked.
\<close>

record component =
  stages :: json
  progressPct :: json
  callStatus :: "json option"
  done_st :: bool
  onCompleteCalls :: nat

definition init_component :: "string \<Rightarrow> component" where
  "init_component initialStatus =
     \<lparr> stages = JArr [],
       progressPct = JNum 0,
       callStatus = Some (JStr initialStatus),
       done_st = (initialStatus = ''completed'' \<or> initialStatus = ''failed''),
       onCompleteCalls = 0 \<rparr>"

text \<open>The option \<^verbatim>\<open>enabled: !done\<close> passed to the socket hook.\<close>

definition enabled :: "component \<Rightarrow> bool" where
  "enabled c = (\<not> done_st c)"

definition is_progress :: "json \<Rightarrow> bool" where
  "is_progress msg = (get_prop msg ''type'' = Some (JStr ''pipeline_progress''))"

definition is_complete :: "json \<Rightarrow> bool" where
  "is_complete msg = (get_prop msg ''type'' = Some (JStr ''pipeline_complete''))"

text \<open>
  The \<^verbatim>\<open>onMessage\<close> callback.  Reading \<^verbatim>\<open>msg.type\<close> on \<^verbatim>\<open>null\<close> throws a TypeError before
  any state is written; nothing else in the body can throw.  The body does not read
  \<^verbatim>\<open>done\<close>.
\<close>

definition onMessage :: "json \<Rightarrow> component \<Rightarrow> js_error + component" where
  "onMessage msg c =
     (if msg = JNull then Inl TypeError
      else if is_progress msg \<or> is_complete msg then
        let c1 = c\<lparr> stages := nullish (get_prop msg ''stages'') (JArr []),
                    progressPct := nullish (get_prop msg ''progress_pct'') (JNum 0),
                    callStatus := get_prop msg ''call_status'' \<rparr>
        in if is_complete msg
           then Inr (c1\<lparr> done_st := True, onCompleteCalls := Suc (onCompleteCalls c1) \<rparr>)
           else Inr c1
      else Inr c)"

text \<open>
  The socket's \<^verbatim>\<open>onmessage\<close> handler of the hook: \<^verbatim>\<open>JSON.parse\<close> and the callback run
  inside one \<^verbatim>\<open>try\<close> whose \<^verbatim>\<open>catch\<close> is empty.  The frame is \<open>None\<close> when
  \<^verbatim>\<open>JSON.parse\<close> throws, and the parsed value otherwise.
\<close>

definition ws_onmessage :: "json option \<Rightarrow> component \<Rightarrow> component" where
  "ws_onmessage frame c =
     (case frame of
        None \<Rightarrow> c
      | Some data \<Rightarrow> (case onMessage data c of Inl e \<Rightarrow> c | Inr c' \<Rightarrow> c'))"

text \<open>
  The effect \<^verbatim>\<open>if (done && stages.length === 0) setProgressPct(100)\<close>, which React runs
  at mount and after a render in which \<^verbatim>\<open>done\<close> or \<^verbatim>\<open>stages.length\<close> differs from the
  previous render.
\<close>

definition force_full_bar :: "component \<Rightarrow> component" where
  "force_full_bar c =
     (if done_st c \<and> length_is_zero (stages c) then c\<lparr> progressPct := JNum 100 \<rparr> else c)"

definition effect_deps :: "component \<Rightarrow> bool \<times> json option" where
  "effect_deps c = (done_st c, js_length (stages c))"

definition mount_component :: "string \<Rightarrow> component" where
  "mount_component initialStatus = force_full_bar (init_component initialStatus)"

text \<open>
  One frame delivered to a rendered component: the handler, then the render and its
  effect.
\<close>

definition deliver :: "component \<Rightarrow> json option \<Rightarrow> component" where
  "deliver c frame =
     (let c' = ws_onmessage frame c
      in if effect_deps c' \<noteq> effect_deps c then force_full_bar c' else c')"

text \<open>
  Frames that arrive before React renders again are handled one after the other on the
  state the earlier ones have written; no effect runs in between.  The render that follows
  the burst compares the dependencies with those of the render before it.
\<close>

definition handle_all :: "component \<Rightarrow> json option list \<Rightarrow> component" where
  "handle_all c frames = foldl (\<lambda>c frame. ws_onmessage frame c) c frames"

definition deliver_burst :: "component \<Rightarrow> json option list \<Rightarrow> component" where
  "deliver_burst c frames =
     (let c' = handle_all c frames
      in if effect_deps c' \<noteq> effect_deps c then force_full_bar c' else c')"

text \<open>
  The frames on which the handler's test of \<^verbatim>\<open>msg.type\<close> succeeds, and those among them
  that reach the branch for \<^verbatim>\<open>pipeline_complete\<close>.
\<close>

definition recognized :: "json option \<Rightarrow> bool" where
  "recognized frame = (case frame of None \<Rightarrow> False | Some m \<Rightarrow> is_progress m \<or> is_complete m)"

definition complete_frame :: "json option \<Rightarrow> bool" where
  "complete_frame frame = (case frame of None \<Rightarrow> False | Some m \<Rightarrow> is_complete m)"

section \<open>useWebSocket: the transport hook\<close>

text \<open>
  Every call of \<^verbatim>\<open>connect\<close> creates a WebSocket object of the browser; an old one lives on
  after \<^verbatim>\<open>wsRef.current\<close> has moved to a newer one, and its handlers still run.  The
  handlers of a socket are closures of the \<^verbatim>\<open>connect\<close> that created it, so the reconnect
  that its \<^verbatim>\<open>onclose\<close> schedules calls that same \<^verbatim>\<open>connect\<close>, with the value of \<^verbatim>\<open>enabled\<close>
  of the render it comes from: the socket records it as \<open>capturedEnabled\<close>.
\<close>

datatype ready_state = CONNECTING | OPEN | CLOSING | CLOSED

record socket =
  readyState :: ready_state
  capturedEnabled :: bool

text \<open>
  The hook's refs and state.  \<open>sockets\<close> holds every socket created so far, \<^verbatim>\<open>wsRef.current\<close>
  is an index into it.  \<open>timers\<close> holds the pending calls \<^verbatim>\<open>setTimeout(connect, 3000)\<close>, each
  with its id and the value of \<^verbatim>\<open>enabled\<close> its \<^verbatim>\<open>connect\<close> has captured;
  \<^verbatim>\<open>reconnectTimer.current\<close> is the id of the timer set last, pending or not.
\<close>

record hook =
  sockets :: "socket list"
  wsRef :: "nat option"
  connected :: bool
  timers :: "(nat \<times> bool) list"
  timerCount :: nat
  reconnectTimer :: "nat option"
  unmounted :: bool
  transmitted :: "json list"

definition init_hook :: hook where
  "init_hook =
     \<lparr> sockets = [], wsRef = None, connected = False, timers = [], timerCount = 0,
       reconnectTimer = None, unmounted = False, transmitted = [] \<rparr>"

definition socket_state :: "hook \<Rightarrow> nat \<Rightarrow> ready_state option" where
  "socket_state h i = (if i < length (sockets h) then Some (readyState (sockets h ! i)) else None)"

text \<open>The \<^verbatim>\<open>readyState\<close> of the socket \<^verbatim>\<open>wsRef.current\<close>, if there is one.\<close>

definition current_state :: "hook \<Rightarrow> ready_state option" where
  "current_state h = (case wsRef h of None \<Rightarrow> None | Some i \<Rightarrow> socket_state h i)"

definition set_ready :: "nat \<Rightarrow> ready_state \<Rightarrow> socket list \<Rightarrow> socket list" where
  "set_ready i r ss = (if i < length ss then ss[i := (ss ! i)\<lparr> readyState := r \<rparr>] else ss)"

text \<open>
  \<^verbatim>\<open>close()\<close> of the browser's socket: it starts the closing handshake unless the socket is
  closing or closed already.
\<close>

fun close_socket :: "ready_state \<Rightarrow> ready_state" where
  "close_socket CONNECTING = CLOSING"
| "close_socket OPEN = CLOSING"
| "close_socket CLOSING = CLOSING"
| "close_socket CLOSED = CLOSED"

definition close_at :: "nat \<Rightarrow> socket list \<Rightarrow> socket list" where
  "close_at i ss =
     (if i < length ss then ss[i := (ss ! i)\<lparr> readyState := close_socket (readyState (ss ! i)) \<rparr>]
      else ss)"

text \<open>\<^verbatim>\<open>clearTimeout(t)\<close>: a pending timer is removed, any other id is ignored.\<close>

definition clear_timer :: "nat \<Rightarrow> (nat \<times> bool) list \<Rightarrow> (nat \<times> bool) list" where
  "clear_timer t ts = filter (\<lambda>p. fst p \<noteq> t) ts"

text \<open>
  \<^verbatim>\<open>connect\<close>, as the closure that has captured \<open>en\<close> for \<^verbatim>\<open>enabled\<close>: it returns at once
  when unmounted or disabled, else creates a socket and stores it in \<^verbatim>\<open>wsRef.current\<close>.
\<close>

definition connect :: "bool \<Rightarrow> hook \<Rightarrow> hook" where
  "connect en h =
     (if unmounted h \<or> \<not> en then h
      else h\<lparr> sockets := sockets h @ [\<lparr> readyState = CONNECTING, capturedEnabled = en \<rparr>],
              wsRef := Some (length (sockets h)) \<rparr>)"

text \<open>The \<^verbatim>\<open>open\<close> event of socket \<open>i\<close> and its \<^verbatim>\<open>onopen\<close> handler.\<close>

definition ws_onopen :: "nat \<Rightarrow> hook \<Rightarrow> hook" where
  "ws_onopen i h =
     (let h1 = h\<lparr> sockets := set_ready i OPEN (sockets h) \<rparr>
      in if \<not> unmounted h1 then h1\<lparr> connected := True \<rparr> else h1)"

text \<open>
  The \<^verbatim>\<open>close\<close> event of socket \<open>i\<close> and its \<^verbatim>\<open>onclose\<close> handler, which arms a reconnect
  timer of 3000 ms for the \<^verbatim>\<open>connect\<close> that created the socket.  The event belongs to
  a socket of the list, so \<open>i\<close> is below its length; the ids of the timers are counted
  from 0 here, and \<^verbatim>\<open>reconnectTimer.current\<close> is \<open>None\<close> as long as no timer has been set.
\<close>

definition ws_onclose :: "nat \<Rightarrow> hook \<Rightarrow> hook" where
  "ws_onclose i h =
     (let h1 = h\<lparr> sockets := set_ready i CLOSED (sockets h) \<rparr>
      in if \<not> unmounted h1 \<and> i < length (sockets h1) then
           h1\<lparr> connected := False,
               timers := timers h1 @ [(timerCount h1, capturedEnabled (sockets h1 ! i))],
               reconnectTimer := Some (timerCount h1),
               timerCount := Suc (timerCount h1) \<rparr>
         else h1)"

text \<open>The \<^verbatim>\<open>onerror\<close> handler of socket \<open>i\<close>: \<^verbatim>\<open>ws.close()\<close>.\<close>

definition ws_onerror :: "nat \<Rightarrow> hook \<Rightarrow> hook" where
  "ws_onerror i h = h\<lparr> sockets := close_at i (sockets h) \<rparr>"

text \<open>A pending reconnect timer fires: it is gone, and its \<^verbatim>\<open>connect\<close> runs.\<close>

definition reconnect_fires :: "nat \<Rightarrow> hook \<Rightarrow> hook" where
  "reconnect_fires t h =
     (case map_of (timers h) t of
        None \<Rightarrow> h
      | Some en \<Rightarrow> connect en (h\<lparr> timers := clear_timer t (timers h) \<rparr>))"

text \<open>
  The body of the hook's effect, run with the \<^verbatim>\<open>enabled\<close> of the current render, and the
  cleanup it returns: the cleanup clears the timer set last and closes the socket
  \<^verbatim>\<open>wsRef.current\<close>.
\<close>

definition hook_effect :: "bool \<Rightarrow> hook \<Rightarrow> hook" where
  "hook_effect en h =
     (let h1 = h\<lparr> unmounted := False \<rparr> in if en then connect en h1 else h1)"

definition hook_cleanup :: "hook \<Rightarrow> hook" where
  "hook_cleanup h =
     h\<lparr> unmounted := True,
        timers := (case reconnectTimer h of None \<Rightarrow> timers h | Some t \<Rightarrow> clear_timer t (timers h)),
        sockets := (case wsRef h of None \<Rightarrow> sockets h | Some i \<Rightarrow> close_at i (sockets h)) \<rparr>"

text \<open>
  \<^verbatim>\<open>send\<close> is \<^verbatim>\<open>wsRef.current?.send(JSON.stringify(msg))\<close>: nothing happens without a
  socket; with one, the browser's \<^verbatim>\<open>send\<close> is called whatever the \<^verbatim>\<open>readyState\<close>.  The
  browser's \<^verbatim>\<open>send\<close> throws an InvalidStateError on a socket that is still connecting,
  transmits on an open one, and discards the data on a closing or closed one.
\<close>

definition send :: "json \<Rightarrow> hook \<Rightarrow> js_error + hook" where
  "send msg h =
     (case current_state h of
        None \<Rightarrow> Inr h
      | Some CONNECTING \<Rightarrow> Inl InvalidStateError
      | Some OPEN \<Rightarrow> Inr (h\<lparr> transmitted := transmitted h @ [msg] \<rparr>)
      | Some CLOSING \<Rightarrow> Inr h
      | Some CLOSED \<Rightarrow> Inr h)"

section \<open>CallDetailPage: the job page around the component\<close>

text \<open>
  The page calls \<^verbatim>\<open>fetchData\<close> once at mount and passes \<^verbatim>\<open>handlePipelineComplete\<close>,
  that is \<^verbatim>\<open>setTimeout(fetchData, 1000)\<close>, to the component as \<^verbatim>\<open>onComplete\<close>.  The state
  holds the component's cells, the dependencies \<^verbatim>\<open>[done, stages.length]\<close> of its last
  render, the hook, the number of requests issued to the job store and the number of
  settle timers pending.
\<close>

record system =
  comp :: component
  renderedDeps :: "bool \<times> json option"
  sock :: hook
  fetches :: nat
  settleTimers :: nat

datatype event =
    WsOpen nat
  | WsMessage nat "json option"
  | WsClose nat
  | WsError nat
  | ReconnectTimerFires nat
  | SettleTimerFires
  | Render

definition mount_system :: "string \<Rightarrow> system" where
  "mount_system initialStatus =
     (let c = init_component initialStatus
      in \<lparr> comp = force_full_bar c, renderedDeps = effect_deps c,
           sock = hook_effect (enabled c) init_hook, fetches = 1, settleTimers = 0 \<rparr>)"

text \<open>
  A render of the component.  The \<^verbatim>\<open>onMessage\<close> passed to the hook is a new function in
  every render, so \<^verbatim>\<open>connect\<close> and with it the dependencies of the hook's effect change
  every time: the cleanup of the previous run and then the effect run again, with the
  \<^verbatim>\<open>enabled\<close> of this render.  The component's own effect runs when its dependencies
  differ from those of the render before.
\<close>

definition render :: "system \<Rightarrow> system" where
  "render s =
     s\<lparr> comp := (if effect_deps (comp s) \<noteq> renderedDeps s then force_full_bar (comp s)
                 else comp s),
        renderedDeps := effect_deps (comp s),
        sock := hook_effect (enabled (comp s)) (hook_cleanup (sock s)) \<rparr>"

text \<open>
  One event while the component is mounted.  An event that the browser cannot raise in the
  current state (an \<^verbatim>\<open>open\<close> on a socket that is not connecting, a message on a socket
  that is not open, a \<^verbatim>\<open>close\<close> or \<^verbatim>\<open>error\<close> on a socket that is closed or does not exist,
  a timer that is not pending) leaves the state as it is.  A message is handled by the
  \<^verbatim>\<open>onMessage\<close> of the render that created the socket; all of them run the same code on the
  same state setters.
\<close>

fun sys_step :: "system \<Rightarrow> event \<Rightarrow> system" where
  "sys_step s (WsOpen i) =
     (if socket_state (sock s) i = Some CONNECTING then s\<lparr> sock := ws_onopen i (sock s) \<rparr>
      else s)"
| "sys_step s (WsMessage i frame) =
     (if socket_state (sock s) i = Some OPEN then
        let c' = ws_onmessage frame (comp s)
        in s\<lparr> comp := c',
              settleTimers := settleTimers s + (onCompleteCalls c' - onCompleteCalls (comp s)) \<rparr>
      else s)"
| "sys_step s (WsClose i) =
     (if socket_state (sock s) i = None \<or> socket_state (sock s) i = Some CLOSED then s
      else s\<lparr> sock := ws_onclose i (sock s) \<rparr>)"
| "sys_step s (WsError i) =
     (if socket_state (sock s) i = None \<or> socket_state (sock s) i = Some CLOSED then s
      else s\<lparr> sock := ws_onerror i (sock s) \<rparr>)"
| "sys_step s (ReconnectTimerFires t) = s\<lparr> sock := reconnect_fires t (sock s) \<rparr>"
| "sys_step s SettleTimerFires =
     (if settleTimers s = 0 then s
      else s\<lparr> settleTimers := settleTimers s - 1, fetches := Suc (fetches s) \<rparr>)"
| "sys_step s Render = render s"

definition sys_run :: "system \<Rightarrow> event list \<Rightarrow> system" where
  "sys_run s es = foldl sys_step s es"

text \<open>
  The events that carry a frame of type \<^verbatim>\<open>pipeline_complete\<close>, and the events of the
  transport and of React: all but messages and the settle timer.
\<close>

definition complete_event :: "event \<Rightarrow> bool" where
  "complete_event e = (case e of WsMessage i frame \<Rightarrow> complete_frame frame | _ \<Rightarrow> False)"

fun transport_event :: "event \<Rightarrow> bool" where
  "transport_event (WsMessage i frame) = False"
| "transport_event SettleTimerFires = False"
| "transport_event _ = True"

section \<open>BatchPage: counts, progress bar and refresh scheduler\<close>

record call =
  call_id :: int
  status :: string
  overall_score :: "rat option"

definition hasActive :: "call list \<Rightarrow> bool" where
  "hasActive calls = list_ex (\<lambda>c. status c = ''queued'' \<or> status c = ''processing'') calls"

definition total :: "call list \<Rightarrow> nat" where
  "total calls = length calls"

definition completed :: "call list \<Rightarrow> nat" where
  "completed calls = length (filter (\<lambda>c. status c = ''completed'') calls)"

definition failed :: "call list \<Rightarrow> nat" where
  "failed calls = length (filter (\<lambda>c. status c = ''failed'') calls)"

definition inProgress :: "call list \<Rightarrow> int" where
  "inProgress calls = int (total calls) - int (completed calls) - int (failed calls)"

subsection \<open>Double-precision arithmetic of the progress bar\<close>

text \<open>
  \<^verbatim>\<open>completed / total\<close> and the product with 100 are operations on doubles: each gives
  the double nearest to the exact result, ties to the even significand.  For a rational
  in the normal range of doubles, \<open>to_double\<close> is that double: the absolute value is
  scaled by a power of two into \<open>[2^52, 2^53)\<close>, rounded to an integer and scaled back.
  \<open>floor_log2 x\<close> is the integer \<open>e\<close> with \<open>2^e \<le> x < 2^(e+1)\<close> for \<open>x > 0\<close>, found from
  the bit lengths of numerator and denominator.
\<close>

definition floor_log2 :: "rat \<Rightarrow> int" where
  "floor_log2 x =
     (let (p, q) = quotient_of x;
          d = bitlen p - bitlen q
      in if 2 powi d \<le> x then d else d - 1)"

definition round_half_even :: "rat \<Rightarrow> int" where
  "round_half_even x =
     (let f = \<lfloor>x\<rfloor>; r = x - of_int f
      in if r < 1 / 2 then f else if 1 / 2 < r then f + 1 else if even f then f else f + 1)"

definition to_double :: "rat \<Rightarrow> rat" where
  "to_double x =
     (if x = 0 then 0
      else let k = 52 - floor_log2 \<bar>x\<bar>
           in sgn x * of_int (round_half_even (\<bar>x\<bar> * 2 powi k)) / 2 powi k)"

text \<open>\<^verbatim>\<open>Math.round\<close>: the nearest integer, a tie going up.\<close>

definition Math_round :: "rat \<Rightarrow> int" where
  "Math_round x = \<lfloor>x + 1 / 2\<rfloor>"

definition progressPct_batch :: "call list \<Rightarrow> int" where
  "progressPct_batch calls =
     (if total calls > 0
      then Math_round (to_double (to_double (of_nat (completed calls) / of_nat (total calls)) * 100))
      else 0)"

subsection \<open>The refresh scheduler\<close>

text \<open>
  \<^verbatim>\<open>load\<close> awaits \<^verbatim>\<open>fetchBatchCalls\<close> and then stores the list; the auto-refresh effect
  depends on the stored list, so after each store its cleanup clears the interval and its
  body arms \<^verbatim>\<open>setInterval(load, 5000)\<close> when some call is active.  A tick of the interval
  calls \<^verbatim>\<open>load\<close> and leaves the interval armed; \<open>inFlight\<close> counts the calls of
  \<^verbatim>\<open>load\<close> that have not settled.
\<close>

record batch_page =
  calls :: "call list"
  loading :: bool
  interval :: "nat option"
  inFlight :: nat

datatype batch_event = Tick | Settled "call list" | Rejected

definition auto_refresh :: "call list \<Rightarrow> nat option" where
  "auto_refresh cs = (if \<not> hasActive cs then None else Some 5000)"

definition batch_mount :: batch_page where
  "batch_mount = \<lparr> calls = [], loading = True, interval = auto_refresh [], inFlight = 1 \<rparr>"

fun batch_step :: "batch_page \<Rightarrow> batch_event \<Rightarrow> batch_page" where
  "batch_step b Tick =
     (if interval b = None then b else b\<lparr> inFlight := Suc (inFlight b) \<rparr>)"
| "batch_step b (Settled data) =
     (if inFlight b = 0 then b
      else b\<lparr> calls := data, loading := False, interval := auto_refresh data,
              inFlight := inFlight b - 1 \<rparr>)"
| "batch_step b Rejected =
     (if inFlight b = 0 then b else b\<lparr> inFlight := inFlight b - 1 \<rparr>)"

definition batch_run :: "batch_page \<Rightarrow> batch_event list \<Rightarrow> batch_page" where
  "batch_run b es = foldl batch_step b es"

section \<open>Facts about the message handler\<close>

lemma not_null_if_typed: "is_progress m \<or> is_complete m \<Longrightarrow> m \<noteq> JNull"
  by (auto simp: is_progress_def is_complete_def)

lemma progress_not_complete: "is_progress m \<Longrightarrow> \<not> is_complete m"
  by (simp add: is_progress_def is_complete_def)

lemma ws_onmessage_progress:
  "is_progress m \<Longrightarrow>
   ws_onmessage (Some m) c =
     c\<lparr> stages := nullish (get_prop m ''stages'') (JArr []),
        progressPct := nullish (get_prop m ''progress_pct'') (JNum 0),
        callStatus := get_prop m ''call_status'' \<rparr>"
  using not_null_if_typed [of m] progress_not_complete [of m]
  by (simp add: ws_onmessage_def onMessage_def Let_def)

lemma ws_onmessage_complete:
  "is_complete m \<Longrightarrow>
   ws_onmessage (Some m) c =
     c\<lparr> stages := nullish (get_prop m ''stages'') (JArr []),
        progressPct := nullish (get_prop m ''progress_pct'') (JNum 0),
        callStatus := get_prop m ''call_status'',
        done_st := True,
        onCompleteCalls := Suc (onCompleteCalls c) \<rparr>"
  using not_null_if_typed [of m]
  by (simp add: ws_onmessage_def onMessage_def Let_def)

lemma ws_onmessage_overwrites:
  assumes "is_progress m \<or> is_complete m"
  shows "stages (ws_onmessage (Some m) c) = nullish (get_prop m ''stages'') (JArr [])"
    and "progressPct (ws_onmessage (Some m) c) = nullish (get_prop m ''progress_pct'') (JNum 0)"
    and "callStatus (ws_onmessage (Some m) c) = get_prop m ''call_status''"
  using assms by (auto simp: ws_onmessage_progress ws_onmessage_complete)

lemma ws_onmessage_unrecognized: "\<not> recognized frame \<Longrightarrow> ws_onmessage frame c = c"
  by (cases frame) (auto simp: recognized_def ws_onmessage_def onMessage_def)

lemma deliver_unrecognized: "\<not> recognized frame \<Longrightarrow> deliver c frame = c"
  by (simp add: deliver_def ws_onmessage_unrecognized)

lemma deliver_progress:
  "is_progress m \<Longrightarrow> \<not> done_st c \<Longrightarrow>
   deliver c (Some m) =
     c\<lparr> stages := nullish (get_prop m ''stages'') (JArr []),
        progressPct := nullish (get_prop m ''progress_pct'') (JNum 0),
        callStatus := get_prop m ''call_status'' \<rparr>"
  by (simp add: deliver_def ws_onmessage_progress force_full_bar_def Let_def)

lemma deliver_complete:
  "is_complete m \<Longrightarrow> \<not> done_st c \<Longrightarrow>
   deliver c (Some m) =
     c\<lparr> stages := nullish (get_prop m ''stages'') (JArr []),
        progressPct := (if length_is_zero (nullish (get_prop m ''stages'') (JArr [])) then JNum 100
                        else nullish (get_prop m ''progress_pct'') (JNum 0)),
        callStatus := get_prop m ''call_status'',
        done_st := True,
        onCompleteCalls := Suc (onCompleteCalls c) \<rparr>"
  by (simp add: deliver_def ws_onmessage_complete force_full_bar_def effect_deps_def Let_def)

lemma force_full_bar_keeps:
  "done_st (force_full_bar c) = done_st c"
  "onCompleteCalls (force_full_bar c) = onCompleteCalls c"
  "stages (force_full_bar c) = stages c"
  "callStatus (force_full_bar c) = callStatus c"
  "effect_deps (force_full_bar c) = effect_deps c"
  by (simp_all add: force_full_bar_def effect_deps_def)

lemma ws_onmessage_done: "done_st c \<Longrightarrow> done_st (ws_onmessage frame c)"
  by (auto simp: ws_onmessage_def onMessage_def Let_def split: option.splits)

lemma ws_onmessage_calls:
  "onCompleteCalls (ws_onmessage frame c) =
     onCompleteCalls c + (if complete_frame frame then 1 else 0)"
  by (auto simp: ws_onmessage_def onMessage_def complete_frame_def Let_def is_complete_def
      split: option.splits)

lemma handle_all_snoc: "handle_all c (fs @ [f]) = ws_onmessage f (handle_all c fs)"
  by (simp add: handle_all_def)

lemma handle_all_Cons: "handle_all c (f # fs) = handle_all (ws_onmessage f c) fs"
  by (simp add: handle_all_def)

lemma handle_all_done: "done_st c \<Longrightarrow> done_st (handle_all c fs)"
  unfolding handle_all_def
  by (induction fs arbitrary: c) (simp_all add: ws_onmessage_done)

lemma handle_all_calls:
  "onCompleteCalls (handle_all c fs) = onCompleteCalls c + length (filter complete_frame fs)"
  unfolding handle_all_def
  by (induction fs arbitrary: c) (simp_all add: ws_onmessage_calls)

lemma deliver_burst_single: "deliver_burst c [frame] = deliver c frame"
  by (simp add: deliver_burst_def deliver_def handle_all_def)

lemmas run_frames =
  handle_all_def deliver_burst_def deliver_def ws_onmessage_def onMessage_def is_progress_def
  is_complete_def mount_component_def init_component_def force_full_bar_def effect_deps_def
  Let_def

lemmas run_system =
  sys_run_def mount_system_def render_def enabled_def hook_effect_def hook_cleanup_def
  connect_def init_hook_def ws_onopen_def ws_onclose_def ws_onerror_def reconnect_fires_def
  socket_state_def current_state_def set_ready_def close_at_def clear_timer_def

section \<open>Frames and renders in the run of the page\<close>

lemma sys_step_message:
  "socket_state (sock s) i = Some OPEN \<Longrightarrow>
   sys_step s (WsMessage i f) =
     s\<lparr> comp := ws_onmessage f (comp s),
        settleTimers := settleTimers s + (if complete_frame f then 1 else 0) \<rparr>"
  by (simp add: Let_def ws_onmessage_calls)

lemma sys_messages:
  assumes "socket_state (sock s) i = Some OPEN"
  shows "sys_run s (map (WsMessage i) fs) =
           s\<lparr> comp := handle_all (comp s) fs,
              settleTimers := settleTimers s + length (filter complete_frame fs) \<rparr>"
  using assms
proof (induction fs arbitrary: s)
  case Nil
  show ?case by (simp add: sys_run_def handle_all_def)
next
  case (Cons f fs)
  define s1 where "s1 = sys_step s (WsMessage i f)"
  have st: "s1 = s\<lparr> comp := ws_onmessage f (comp s),
                    settleTimers := settleTimers s + (if complete_frame f then 1 else 0) \<rparr>"
    unfolding s1_def by (rule sys_step_message [OF Cons.prems])
  then have "socket_state (sock s1) i = Some OPEN"
    using Cons.prems by simp
  from Cons.IH [OF this]
  have "sys_run s1 (map (WsMessage i) fs) =
          s1\<lparr> comp := handle_all (comp s1) fs,
              settleTimers := settleTimers s1 + length (filter complete_frame fs) \<rparr>" .
  moreover have "sys_run s (map (WsMessage i) (f # fs)) = sys_run s1 (map (WsMessage i) fs)"
    by (simp add: sys_run_def s1_def del: sys_step.simps)
  ultimately show ?case
    by (simp add: st handle_all_Cons)
qed

lemma sys_burst_render:
  assumes "socket_state (sock s) i = Some OPEN" and "renderedDeps s = effect_deps (comp s)"
  shows "comp (sys_run s (map (WsMessage i) fs @ [Render])) = deliver_burst (comp s) fs"
proof -
  have "sys_run s (map (WsMessage i) fs @ [Render]) = render (sys_run s (map (WsMessage i) fs))"
    by (simp add: sys_run_def)
  then show ?thesis
    using assms(2) by (simp add: sys_messages [OF assms(1)] render_def deliver_burst_def Let_def)
qed

lemma render_deps: "renderedDeps (render s) = effect_deps (comp (render s))"
  by (simp add: render_def force_full_bar_keeps)

lemma render_closes:
  assumes "done_st (comp s)"
  shows "current_state (sock (render s)) \<noteq> Some CONNECTING"
    and "current_state (sock (render s)) \<noteq> Some OPEN"
proof -
  have "current_state (sock (render s)) \<noteq> Some CONNECTING \<and>
        current_state (sock (render s)) \<noteq> Some OPEN"
  proof (cases "wsRef (sock s)")
    case None
    with assms show ?thesis
      by (simp add: render_def enabled_def hook_effect_def hook_cleanup_def current_state_def)
  next
    case (Some i)
    show ?thesis
    proof (cases "i < length (sockets (sock s))")
      case True
      with Some assms show ?thesis
        by (cases "readyState (sockets (sock s) ! i)")
          (simp_all add: render_def enabled_def hook_effect_def hook_cleanup_def
            current_state_def socket_state_def close_at_def)
    next
      case False
      with Some assms show ?thesis
        by (simp add: render_def enabled_def hook_effect_def hook_cleanup_def
            current_state_def socket_state_def close_at_def)
    qed
  qed
  then show "current_state (sock (render s)) \<noteq> Some CONNECTING"
    and "current_state (sock (render s)) \<noteq> Some OPEN"
    by simp_all
qed

section \<open>The pipeline state machine\<close>

text \<open>
  C1, as stated, fails: the handler never reads \<^verbatim>\<open>done\<close>, and the socket is closed only
  by the cleanup of the hook's effect, at the render that follows.  A complete frame
  arrives on the open socket and makes the job terminal; rendered alone it shows 100.  When
  a progress frame arrives on the same socket before that render, the view rendered shows
  its 50, and when a second complete frame does, the completion callback has run twice.
\<close>

theorem complete_not_absorbing_counterexample:
  "socket_state (sock (sys_run (mount_system ''processing'')
      [WsOpen 0,
       WsMessage 0 (Some (JObj [(''type'', JStr ''pipeline_complete''),
                                (''stages'', JArr [JObj [(''stage'', JStr ''vad'')]]),
                                (''progress_pct'', JNum 100),
                                (''call_status'', JStr ''completed'')]))])) 0 = Some OPEN
   \<and> done_st (comp (sys_run (mount_system ''processing'')
      [WsOpen 0,
       WsMessage 0 (Some (JObj [(''type'', JStr ''pipeline_complete''),
                                (''stages'', JArr [JObj [(''stage'', JStr ''vad'')]]),
                                (''progress_pct'', JNum 100),
                                (''call_status'', JStr ''completed'')]))]))
   \<and> progressPct (comp (sys_run (mount_system ''processing'')
      [WsOpen 0,
       WsMessage 0 (Some (JObj [(''type'', JStr ''pipeline_complete''),
                                (''stages'', JArr [JObj [(''stage'', JStr ''vad'')]]),
                                (''progress_pct'', JNum 100),
                                (''call_status'', JStr ''completed'')])),
       Render])) = JNum 100
   \<and> progressPct (comp (sys_run (mount_system ''processing'')
      [WsOpen 0,
       WsMessage 0 (Some (JObj [(''type'', JStr ''pipeline_complete''),
                                (''stages'', JArr [JObj [(''stage'', JStr ''vad'')]]),
                                (''progress_pct'', JNum 100),
                                (''call_status'', JStr ''completed'')])),
       WsMessage 0 (Some (JObj [(''type'', JStr ''pipeline_progress''),
                                (''stages'', JArr [JObj [(''stage'', JStr ''vad'')]]),
                                (''progress_pct'', JNum 50),
                                (''call_status'', JStr ''processing'')])),
       Render])) = JNum 50
   \<and> onCompleteCalls (comp (sys_run (mount_system ''processing'')
      [WsOpen 0,
       WsMessage 0 (Some (JObj [(''type'', JStr ''pipeline_complete''),
                                (''stages'', JArr [JObj [(''stage'', JStr ''vad'')]]),
                                (''progress_pct'', JNum 100),
                                (''call_status'', JStr ''completed'')])),
       WsMessage 0 (Some (JObj [(''type'', JStr ''pipeline_complete''),
                                (''stages'', JArr [JObj [(''stage'', JStr ''vad'')]]),
                                (''progress_pct'', JNum 100),
                                (''call_status'', JStr ''completed'')])),
       Render])) = 2"
  by (simp add: run_system run_frames)

text \<open>
  C1, amended: once a complete frame has been handled the job is terminal and stays
  terminal whatever frames are handled after it, so \<^verbatim>\<open>enabled\<close> is false and the next
  render closes the current socket and opens none.  The handler does not test the
  terminal flag: a recognized frame handled after the complete frame overwrites the stored
  stages, percentage and status with its own, so the view rendered after such a burst on
  a job that was not terminal before shows the stages and status of the last frame and
  its percentage, or 100 when its stage list is empty or absent.  The completion callback
  is invoked once for every complete frame handled, hence exactly once only when no
  further complete frame is handled.
\<close>

theorem complete_terminal_handler_unguarded:
  assumes "is_complete m" and "is_progress m' \<or> is_complete m'"
  shows "done_st (handle_all (ws_onmessage (Some m) c) fs)
       \<and> \<not> enabled (handle_all (ws_onmessage (Some m) c) fs)
       \<and> onCompleteCalls (handle_all (ws_onmessage (Some m) c) fs) =
           Suc (onCompleteCalls c) + length (filter complete_frame fs)
       \<and> stages (ws_onmessage (Some m') (handle_all (ws_onmessage (Some m) c) fs)) =
           nullish (get_prop m' ''stages'') (JArr [])
       \<and> progressPct (ws_onmessage (Some m') (handle_all (ws_onmessage (Some m) c) fs)) =
           nullish (get_prop m' ''progress_pct'') (JNum 0)
       \<and> callStatus (ws_onmessage (Some m') (handle_all (ws_onmessage (Some m) c) fs)) =
           get_prop m' ''call_status''
       \<and> (\<not> done_st c \<longrightarrow>
            stages (deliver_burst c (Some m # fs @ [Some m'])) =
              nullish (get_prop m' ''stages'') (JArr [])
          \<and> callStatus (deliver_burst c (Some m # fs @ [Some m'])) = get_prop m' ''call_status''
          \<and> progressPct (deliver_burst c (Some m # fs @ [Some m'])) =
              (if length_is_zero (nullish (get_prop m' ''stages'') (JArr [])) then JNum 100
               else nullish (get_prop m' ''progress_pct'') (JNum 0)))
       \<and> (done_st (comp s) \<longrightarrow>
            current_state (sock (sys_step s Render)) \<noteq> Some CONNECTING
          \<and> current_state (sock (sys_step s Render)) \<noteq> Some OPEN)"
proof -
  define d where "d = handle_all (ws_onmessage (Some m) c) fs"
  define e where "e = ws_onmessage (Some m') d"
  have d0: "done_st (ws_onmessage (Some m) c)"
    using assms(1) by (simp add: ws_onmessage_complete)
  then have dd: "done_st d"
    unfolding d_def by (rule handle_all_done)
  have n: "onCompleteCalls d = Suc (onCompleteCalls c) + length (filter complete_frame fs)"
    using assms(1) by (simp add: d_def handle_all_calls ws_onmessage_complete)
  note o = ws_onmessage_overwrites [OF assms(2), of d]
  have h: "handle_all c (Some m # fs @ [Some m']) = e"
    by (simp add: e_def d_def handle_all_Cons handle_all_snoc)
  have de: "done_st e"
    unfolding e_def using dd by (rule ws_onmessage_done)
  have burst: "deliver_burst c (Some m # fs @ [Some m']) = force_full_bar e" if "\<not> done_st c"
    using that de by (simp add: deliver_burst_def h effect_deps_def)
  have fe: "progressPct (force_full_bar e) =
      (if length_is_zero (nullish (get_prop m' ''stages'') (JArr [])) then JNum 100
       else nullish (get_prop m' ''progress_pct'') (JNum 0))"
    using de o by (simp add: force_full_bar_def e_def)
  show ?thesis
    using dd n o burst fe render_closes [of s]
    by (simp add: enabled_def force_full_bar_keeps flip: d_def e_def)
qed

theorem complete_terminal_handler_unguarded_witness:
  "is_complete (JObj [(''type'', JStr ''pipeline_complete''),
                      (''stages'', JArr [JObj [(''stage'', JStr ''vad'')]]),
                      (''progress_pct'', JNum 100)])
   \<and> is_progress (JObj [(''type'', JStr ''pipeline_progress''), (''stages'', JArr []),
                      (''progress_pct'', JNum 50)])
   \<and> \<not> done_st (mount_component ''processing'')
   \<and> onCompleteCalls (handle_all (ws_onmessage
        (Some (JObj [(''type'', JStr ''pipeline_complete''),
                     (''stages'', JArr [JObj [(''stage'', JStr ''vad'')]]),
                     (''progress_pct'', JNum 100)]))
        (mount_component ''processing''))
        [Some (JObj [(''type'', JStr ''pipeline_complete'')])]) = 2
   \<and> progressPct (ws_onmessage
        (Some (JObj [(''type'', JStr ''pipeline_progress''), (''stages'', JArr []),
                     (''progress_pct'', JNum 50)]))
        (handle_all (ws_onmessage
          (Some (JObj [(''type'', JStr ''pipeline_complete''),
                       (''stages'', JArr [JObj [(''stage'', JStr ''vad'')]]),
                       (''progress_pct'', JNum 100)]))
          (mount_component ''processing''))
          [Some (JObj [(''type'', JStr ''pipeline_complete'')])])) = JNum 50
   \<and> progressPct (deliver_burst (mount_component ''processing'')
        [Some (JObj [(''type'', JStr ''pipeline_complete''),
                     (''stages'', JArr [JObj [(''stage'', JStr ''vad'')]]),
                     (''progress_pct'', JNum 100)]),
         Some (JObj [(''type'', JStr ''pipeline_complete'')]),
         Some (JObj [(''type'', JStr ''pipeline_progress''), (''stages'', JArr []),
                     (''progress_pct'', JNum 50)])]) = JNum 100
   \<and> done_st (comp (sys_run (mount_system ''processing'')
        [WsOpen 0, WsMessage 0 (Some (JObj [(''type'', JStr ''pipeline_complete'')]))]))
   \<and> current_state (sock (sys_step (sys_run (mount_system ''processing'')
        [WsOpen 0, WsMessage 0 (Some (JObj [(''type'', JStr ''pipeline_complete'')]))])
        Render)) \<noteq> Some OPEN"
proof -
  have h1: "is_complete (JObj [(''type'', JStr ''pipeline_complete''),
                      (''stages'', JArr [JObj [(''stage'', JStr ''vad'')]]),
                      (''progress_pct'', JNum 100)])"
    by (simp add: is_complete_def)
  have h2: "is_progress (JObj [(''type'', JStr ''pipeline_progress''), (''stages'', JArr []),
                      (''progress_pct'', JNum 50)])"
    by (simp add: is_progress_def)
  have h3: "\<not> done_st (mount_component ''processing'')"
    by (simp add: mount_component_def init_component_def force_full_bar_def)
  have h4: "done_st (comp (sys_run (mount_system ''processing'')
        [WsOpen 0, WsMessage 0 (Some (JObj [(''type'', JStr ''pipeline_complete'')]))]))"
    by (simp add: run_system run_frames)
  have f: "length (filter complete_frame [Some (JObj [(''type'', JStr ''pipeline_complete'')])]) = 1"
    by (simp add: complete_frame_def is_complete_def)
  have z: "onCompleteCalls (mount_component ''processing'') = 0"
    by (simp add: mount_component_def init_component_def force_full_bar_def)
  show ?thesis
    using h1 h2 h3 h4 f z
      complete_terminal_handler_unguarded [OF h1 disjI1 [OF h2],
        of "mount_component ''processing''"
           "[Some (JObj [(''type'', JStr ''pipeline_complete'')])]"
           "sys_run (mount_system ''processing'')
              [WsOpen 0, WsMessage 0 (Some (JObj [(''type'', JStr ''pipeline_complete'')]))]"]
    by simp
qed

text \<open>
  C2, as stated, fails: nothing clamps.  A progress frame carrying 150 leaves the exposed
  percentage at 150 where the clamp to the range from 0 to 100 gives 100, and a complete
  frame carrying -5 leaves it at -5 where the clamp gives 0.
\<close>

theorem percentage_unclamped_counterexample:
  "progressPct (deliver (mount_component ''processing'')
      (Some (JObj [(''type'', JStr ''pipeline_progress''),
                   (''stages'', JArr [JObj [(''stage'', JStr ''vad'')]]),
                   (''progress_pct'', JNum 150),
                   (''call_status'', JStr ''processing'')]))) = JNum 150
   \<and> max 0 (min 100 (150 :: rat)) = 100
   \<and> progressPct (deliver (mount_component ''processing'')
      (Some (JObj [(''type'', JStr ''pipeline_complete''),
                   (''stages'', JArr [JObj [(''stage'', JStr ''vad'')]]),
                   (''progress_pct'', JNum (- 5)),
                   (''call_status'', JStr ''failed'')]))) = JNum (- 5)
   \<and> max 0 (min 100 (- 5 :: rat)) = 0"
  by (simp add: run_frames)

text \<open>
  C2, amended: for a progress or complete frame delivered to a job that is not yet
  terminal, the exposed percentage is the frame's \<^verbatim>\<open>progress_pct\<close> exactly as sent (0 when
  the field is absent or null), whatever its range; the one override is a complete frame
  whose stage list is empty or absent, which shows 100.
\<close>

theorem percentage_is_value_sent:
  assumes "\<not> done_st c" and "is_progress m \<or> is_complete m"
  shows "progressPct (deliver c (Some m)) =
           (if is_complete m \<and> length_is_zero (nullish (get_prop m ''stages'') (JArr []))
            then JNum 100
            else nullish (get_prop m ''progress_pct'') (JNum 0))"
proof (cases "is_complete m")
  case True
  with assms(1) show ?thesis by (simp add: deliver_complete)
next
  case False
  with assms have "is_progress m" by simp
  with assms(1) False show ?thesis by (simp add: deliver_progress)
qed

theorem percentage_is_value_sent_witness:
  "\<not> done_st (mount_component ''queued'')
   \<and> is_progress (JObj [(''type'', JStr ''pipeline_progress''), (''progress_pct'', JNum 150)])
   \<and> progressPct (deliver (mount_component ''queued'')
        (Some (JObj [(''type'', JStr ''pipeline_progress''), (''progress_pct'', JNum 150)])))
       = JNum 150"
proof -
  have h1: "\<not> done_st (mount_component ''queued'')"
    by (simp add: mount_component_def init_component_def force_full_bar_def)
  have h2: "is_progress (JObj [(''type'', JStr ''pipeline_progress''), (''progress_pct'', JNum 150)])"
    by (simp add: is_progress_def)
  show ?thesis
    using h1 h2 percentage_is_value_sent [OF h1 disjI1 [OF h2]]
    by (simp add: is_complete_def)
qed

text \<open>
  C4, as stated, fails: the reducer replaces the percentage wholesale.  On a job that
  stays non-terminal, a progress frame carrying 50 followed by one carrying 30 exposes 50
  and then 30.
\<close>

theorem percentage_decreases_counterexample:
  "progressPct (deliver (mount_component ''processing'')
      (Some (JObj [(''type'', JStr ''pipeline_progress''),
                   (''stages'', JArr [JObj [(''stage'', JStr ''vad'')]]),
                   (''progress_pct'', JNum 50),
                   (''call_status'', JStr ''processing'')]))) = JNum 50
   \<and> progressPct (deliver (deliver (mount_component ''processing'')
      (Some (JObj [(''type'', JStr ''pipeline_progress''),
                   (''stages'', JArr [JObj [(''stage'', JStr ''vad'')]]),
                   (''progress_pct'', JNum 50),
                   (''call_status'', JStr ''processing'')])))
      (Some (JObj [(''type'', JStr ''pipeline_progress''),
                   (''stages'', JArr [JObj [(''stage'', JStr ''vad'')]]),
                   (''progress_pct'', JNum 30),
                   (''call_status'', JStr ''processing'')]))) = JNum 30
   \<and> \<not> done_st (deliver (deliver (mount_component ''processing'')
      (Some (JObj [(''type'', JStr ''pipeline_progress''),
                   (''stages'', JArr [JObj [(''stage'', JStr ''vad'')]]),
                   (''progress_pct'', JNum 50),
                   (''call_status'', JStr ''processing'')])))
      (Some (JObj [(''type'', JStr ''pipeline_progress''),
                   (''stages'', JArr [JObj [(''stage'', JStr ''vad'')]]),
                   (''progress_pct'', JNum 30),
                   (''call_status'', JStr ''processing'')])))
   \<and> (30 :: rat) < 50"
  by (simp add: run_frames)

text \<open>
  C4, amended: while a job is non-terminal, the percentage exposed after each progress
  frame is the number that frame carries, and the job stays non-terminal; over two
  consecutive progress frames the exposed percentage is therefore non-decreasing exactly
  when the numbers sent are.  When both frames arrive before the next render, the view
  rendered shows the number of the second.
\<close>

theorem percentage_follows_source:
  assumes "\<not> done_st c" and "is_progress m1" and "is_progress m2"
    and "get_prop m1 ''progress_pct'' = Some (JNum p1)"
    and "get_prop m2 ''progress_pct'' = Some (JNum p2)"
  shows "progressPct (deliver c (Some m1)) = JNum p1
       \<and> progressPct (deliver (deliver c (Some m1)) (Some m2)) = JNum p2
       \<and> \<not> done_st (deliver (deliver c (Some m1)) (Some m2))
       \<and> progressPct (deliver_burst c [Some m1, Some m2]) = JNum p2
       \<and> \<not> done_st (deliver_burst c [Some m1, Some m2])"
proof -
  have c1: "deliver c (Some m1) =
     c\<lparr> stages := nullish (get_prop m1 ''stages'') (JArr []),
        progressPct := JNum p1,
        callStatus := get_prop m1 ''call_status'' \<rparr>"
    using assms(1,2,4) by (simp add: deliver_progress)
  then have n1: "\<not> done_st (deliver c (Some m1))"
    using assms(1) by simp
  have c2: "deliver (deliver c (Some m1)) (Some m2) =
     (deliver c (Some m1))\<lparr> stages := nullish (get_prop m2 ''stages'') (JArr []),
        progressPct := JNum p2,
        callStatus := get_prop m2 ''call_status'' \<rparr>"
    using n1 assms(3,5) by (simp add: deliver_progress)
  have h: "handle_all c [Some m1, Some m2] =
     c\<lparr> stages := nullish (get_prop m2 ''stages'') (JArr []),
        progressPct := JNum p2,
        callStatus := get_prop m2 ''call_status'' \<rparr>"
    using assms(2-5) by (simp add: handle_all_def ws_onmessage_progress)
  have b: "deliver_burst c [Some m1, Some m2] = handle_all c [Some m1, Some m2]"
    using assms(1) by (simp add: deliver_burst_def h force_full_bar_def Let_def)
  show ?thesis
    using c1 c2 n1 b h assms(1) by simp
qed

theorem percentage_follows_source_witness:
  "\<not> done_st (mount_component ''queued'')
   \<and> is_progress (JObj [(''type'', JStr ''pipeline_progress''), (''progress_pct'', JNum 10)])
   \<and> is_progress (JObj [(''type'', JStr ''pipeline_progress''), (''progress_pct'', JNum 40)])
   \<and> progressPct (deliver (deliver (mount_component ''queued'')
        (Some (JObj [(''type'', JStr ''pipeline_progress''), (''progress_pct'', JNum 10)])))
        (Some (JObj [(''type'', JStr ''pipeline_progress''), (''progress_pct'', JNum 40)])))
       = JNum 40"
proof -
  have h1: "\<not> done_st (mount_component ''queued'')"
    by (simp add: mount_component_def init_component_def force_full_bar_def)
  have h2: "is_progress (JObj [(''type'', JStr ''pipeline_progress''), (''progress_pct'', JNum 10)])"
    by (simp add: is_progress_def)
  have h3: "is_progress (JObj [(''type'', JStr ''pipeline_progress''), (''progress_pct'', JNum 40)])"
    by (simp add: is_progress_def)
  have h4: "get_prop (JObj [(''type'', JStr ''pipeline_progress''), (''progress_pct'', JNum 10)])
              ''progress_pct'' = Some (JNum 10)"
    by simp
  have h5: "get_prop (JObj [(''type'', JStr ''pipeline_progress''), (''progress_pct'', JNum 40)])
              ''progress_pct'' = Some (JNum 40)"
    by simp
  show ?thesis
    using h1 h2 h3 percentage_follows_source [OF h1 h2 h3 h4 h5]
    by simp
qed



section \<open>The event decoder\<close>

text \<open>
  C5, as stated, fails for frames that do not have the recognized shape: a frame with a
  recognized type and no \<^verbatim>\<open>stages\<close>, \<^verbatim>\<open>progress_pct\<close> or \<^verbatim>\<open>call_status\<close> is applied with
  the defaults, and replaces a view that showed one stage at 50 percent.
\<close>

theorem shapeless_frame_applied_counterexample:
  "get_prop (JObj [(''type'', JStr ''pipeline_progress'')]) ''stages'' = None
   \<and> get_prop (JObj [(''type'', JStr ''pipeline_progress'')]) ''progress_pct'' = None
   \<and> get_prop (JObj [(''type'', JStr ''pipeline_progress'')]) ''call_status'' = None
   \<and> progressPct (deliver (mount_component ''processing'')
      (Some (JObj [(''type'', JStr ''pipeline_progress''),
                   (''stages'', JArr [JObj [(''stage'', JStr ''vad'')]]),
                   (''progress_pct'', JNum 50),
                   (''call_status'', JStr ''processing'')]))) = JNum 50
   \<and> progressPct (deliver (deliver (mount_component ''processing'')
      (Some (JObj [(''type'', JStr ''pipeline_progress''),
                   (''stages'', JArr [JObj [(''stage'', JStr ''vad'')]]),
                   (''progress_pct'', JNum 50),
                   (''call_status'', JStr ''processing'')])))
      (Some (JObj [(''type'', JStr ''pipeline_progress'')]))) = JNum 0
   \<and> stages (deliver (deliver (mount_component ''processing'')
      (Some (JObj [(''type'', JStr ''pipeline_progress''),
                   (''stages'', JArr [JObj [(''stage'', JStr ''vad'')]]),
                   (''progress_pct'', JNum 50),
                   (''call_status'', JStr ''processing'')])))
      (Some (JObj [(''type'', JStr ''pipeline_progress'')]))) = JArr []
   \<and> callStatus (deliver (deliver (mount_component ''processing'')
      (Some (JObj [(''type'', JStr ''pipeline_progress''),
                   (''stages'', JArr [JObj [(''stage'', JStr ''vad'')]]),
                   (''progress_pct'', JNum 50),
                   (''call_status'', JStr ''processing'')])))
      (Some (JObj [(''type'', JStr ''pipeline_progress'')]))) = None"
  by (simp add: run_frames)

text \<open>
  C5, amended: a frame that is not decodable JSON, or whose decoded value has no
  \<^verbatim>\<open>type\<close> equal to \<^verbatim>\<open>pipeline_progress\<close> or \<^verbatim>\<open>pipeline_complete\<close>, is discarded entirely,
  on whichever socket it arrives: the view, the sockets (the one it arrived on stays
  open), the request count and the timers are all unchanged, and no exception leaves the
  handler.  The witness is the frame \<^verbatim>\<open>{"type":"ping"}\<close>.
\<close>

theorem unrecognized_frame_discarded:
  assumes "\<not> recognized frame"
  shows "deliver c frame = c \<and> sys_step s (WsMessage i frame) = s"
  using assms by (simp add: deliver_unrecognized ws_onmessage_unrecognized Let_def)

theorem unrecognized_frame_discarded_witness:
  "\<not> recognized (Some (JObj [(''type'', JStr ''ping'')]))
   \<and> sys_step (sys_run (mount_system ''processing'') [WsOpen 0])
        (WsMessage 0 (Some (JObj [(''type'', JStr ''ping'')])))
      = sys_run (mount_system ''processing'') [WsOpen 0]
   \<and> socket_state (sock (sys_step (sys_run (mount_system ''processing'') [WsOpen 0])
        (WsMessage 0 (Some (JObj [(''type'', JStr ''ping'')]))))) 0 = Some OPEN"
proof -
  have h: "\<not> recognized (Some (JObj [(''type'', JStr ''ping'')]))"
    by (simp add: recognized_def is_progress_def is_complete_def)
  have o: "socket_state (sock (sys_run (mount_system ''processing'') [WsOpen 0])) 0 = Some OPEN"
    by (simp add: run_system run_frames)
  show ?thesis
    using h o unrecognized_frame_discarded [OF h, of "mount_component ''processing''"
        "sys_run (mount_system ''processing'') [WsOpen 0]" 0]
    by simp
qed

section \<open>Transport and reconciliation\<close>

lemma sys_step_transport:
  assumes "transport_event e"
  shows "fetches (sys_step s e) = fetches s"
    and "settleTimers (sys_step s e) = settleTimers s"
    and "stages (comp (sys_step s e)) = stages (comp s)"
    and "callStatus (comp (sys_step s e)) = callStatus (comp s)"
    and "done_st (comp (sys_step s e)) = done_st (comp s)"
    and "onCompleteCalls (comp (sys_step s e)) = onCompleteCalls (comp s)"
    and "progressPct (comp (sys_step s e)) = progressPct (comp s)
         \<or> progressPct (comp (sys_step s e)) = JNum 100"
  using assms by (cases e; simp add: render_def force_full_bar_def)+

lemma sys_run_transport:
  assumes "list_all transport_event es"
  shows "fetches (sys_run s es) = fetches s
       \<and> settleTimers (sys_run s es) = settleTimers s
       \<and> stages (comp (sys_run s es)) = stages (comp s)
       \<and> callStatus (comp (sys_run s es)) = callStatus (comp s)
       \<and> done_st (comp (sys_run s es)) = done_st (comp s)
       \<and> onCompleteCalls (comp (sys_run s es)) = onCompleteCalls (comp s)
       \<and> (progressPct (comp (sys_run s es)) = progressPct (comp s)
            \<or> progressPct (comp (sys_run s es)) = JNum 100)"
  using assms unfolding sys_run_def
proof (induction es arbitrary: s)
  case Nil
  show ?case by simp
next
  case (Cons e es)
  from Cons.prems have e: "transport_event e" and es: "list_all transport_event es"
    by simp_all
  note ih = Cons.IH [OF es, of "sys_step s e"]
  note st = sys_step_transport [OF e, of s]
  have "foldl sys_step s (e # es) = foldl sys_step (sys_step s e) es"
    by simp
  with ih st show ?case
    by (auto simp del: sys_step.simps)
qed

lemma sys_step_open:
  "sys_step s (WsOpen i) = s\<lparr> sock := sock (sys_step s (WsOpen i)) \<rparr>"
  "(sock (sys_step s (WsOpen i)))\<lparr> connected := connected (sock s), sockets := sockets (sock s) \<rparr>
     = sock s"
  "sockets (sock (sys_step s (WsOpen i))) = sockets (sock s)
     \<or> sockets (sock (sys_step s (WsOpen i))) = set_ready i OPEN (sockets (sock s))"
  by (simp_all add: ws_onopen_def Let_def)

lemma sys_step_budget:
  "fetches (sys_step s e) + settleTimers (sys_step s e)
     \<le> fetches s + settleTimers s + (if complete_event e then 1 else 0)"
  by (cases e) (simp_all add: complete_event_def ws_onmessage_calls Let_def render_def)

lemma sys_run_budget:
  "fetches (sys_run s es) + settleTimers (sys_run s es)
     \<le> fetches s + settleTimers s + length (filter complete_event es)"
  unfolding sys_run_def
proof (induction es arbitrary: s)
  case Nil
  show ?case by simp
next
  case (Cons e es)
  from Cons.IH [of "sys_step s e"] sys_step_budget [of s e]
  show ?case by (simp split: if_splits del: sys_step.simps)
qed

text \<open>
  C3, as stated, fails: no handler of the hook and no effect issues a request.  After mount
  (one request, the page's own) the first socket opens; the render that follows closes it
  and connects again; its \<^verbatim>\<open>close\<close> event clears \<^verbatim>\<open>connected\<close> and arms the reconnect timer;
  the render that follows clears the timer and connects once more, and this socket opens.
  The progress frame that arrives on it is applied to the view, and the number of requests
  issued is still 1, with no settle timer pending.
\<close>

theorem reconnect_without_fetch_counterexample:
  "fetches (mount_system ''processing'') = 1
   \<and> socket_state (sock (sys_run (mount_system ''processing'') [WsOpen 0])) 0 = Some OPEN
   \<and> \<not> connected (sock (sys_run (mount_system ''processing'') [WsOpen 0, Render, WsClose 0]))
   \<and> timers (sock (sys_run (mount_system ''processing'') [WsOpen 0, Render, WsClose 0]))
        = [(0, True)]
   \<and> timers (sock (sys_run (mount_system ''processing'') [WsOpen 0, Render, WsClose 0, Render]))
        = []
   \<and> current_state (sock (sys_run (mount_system ''processing'')
        [WsOpen 0, Render, WsClose 0, Render, WsOpen 2])) = Some OPEN
   \<and> connected (sock (sys_run (mount_system ''processing'')
        [WsOpen 0, Render, WsClose 0, Render, WsOpen 2]))
   \<and> fetches (sys_run (mount_system ''processing'')
        [WsOpen 0, Render, WsClose 0, Render, WsOpen 2,
         WsMessage 2 (Some (JObj [(''type'', JStr ''pipeline_progress''),
                                  (''stages'', JArr [JObj [(''stage'', JStr ''vad'')]]),
                                  (''progress_pct'', JNum 10),
                                  (''call_status'', JStr ''processing'')]))]) = 1
   \<and> settleTimers (sys_run (mount_system ''processing'')
        [WsOpen 0, Render, WsClose 0, Render, WsOpen 2,
         WsMessage 2 (Some (JObj [(''type'', JStr ''pipeline_progress''),
                                  (''stages'', JArr [JObj [(''stage'', JStr ''vad'')]]),
                                  (''progress_pct'', JNum 10),
                                  (''call_status'', JStr ''processing'')]))]) = 0
   \<and> progressPct (comp (sys_run (mount_system ''processing'')
        [WsOpen 0, Render, WsClose 0, Render, WsOpen 2,
         WsMessage 2 (Some (JObj [(''type'', JStr ''pipeline_progress''),
                                  (''stages'', JArr [JObj [(''stage'', JStr ''vad'')]]),
                                  (''progress_pct'', JNum 10),
                                  (''call_status'', JStr ''processing'')]))])) = JNum 10"
  by (simp add: run_system run_frames)

text \<open>
  C3, amended: a channel loss followed by a reconnect (any sequence of open, close, error,
  reconnect-timer and render events) issues no snapshot fetch, arms no settle timer and
  leaves the stages and the status of the view as they are; the transition to open changes
  nothing but the ready state of the socket and \<^verbatim>\<open>connected\<close>.  Over any sequence of events,
  a fetch is issued only by a settle timer, and a settle timer is armed only by a complete
  frame that is handled.
\<close>

theorem reconnect_issues_no_fetch:
  assumes "list_all transport_event es"
  shows "fetches (sys_run s es) = fetches s
       \<and> settleTimers (sys_run s es) = settleTimers s
       \<and> stages (comp (sys_run s es)) = stages (comp s)
       \<and> callStatus (comp (sys_run s es)) = callStatus (comp s)
       \<and> sys_step s (WsOpen i) = s\<lparr> sock := sock (sys_step s (WsOpen i)) \<rparr>
       \<and> (sock (sys_step s (WsOpen i)))
            \<lparr> connected := connected (sock s), sockets := sockets (sock s) \<rparr> = sock s
       \<and> (sockets (sock (sys_step s (WsOpen i))) = sockets (sock s)
            \<or> sockets (sock (sys_step s (WsOpen i))) = set_ready i OPEN (sockets (sock s)))
       \<and> fetches (sys_run s es') \<le> fetches s + settleTimers s + length (filter complete_event es')"
  using sys_run_transport [OF assms, of s] sys_step_open [of s i] sys_run_budget [of s es']
  by (simp del: sys_step.simps)

theorem reconnect_issues_no_fetch_witness:
  "list_all transport_event [Render, WsClose 0, Render, WsOpen 2]
   \<and> socket_state (sock (sys_run (mount_system ''processing'') [WsOpen 0])) 0 = Some OPEN
   \<and> current_state (sock (sys_run (sys_run (mount_system ''processing'') [WsOpen 0])
        [Render, WsClose 0, Render, WsOpen 2])) = Some OPEN
   \<and> fetches (sys_run (sys_run (mount_system ''processing'') [WsOpen 0])
        [Render, WsClose 0, Render, WsOpen 2]) = 1"
proof -
  have h: "list_all transport_event [Render, WsClose 0, Render, WsOpen 2]"
    by simp
  have o: "socket_state (sock (sys_run (mount_system ''processing'') [WsOpen 0])) 0 = Some OPEN"
    by (simp add: run_system run_frames)
  have r: "current_state (sock (sys_run (sys_run (mount_system ''processing'') [WsOpen 0])
        [Render, WsClose 0, Render, WsOpen 2])) = Some OPEN"
    by (simp add: run_system run_frames)
  have f: "fetches (sys_run (mount_system ''processing'') [WsOpen 0]) = 1"
    by (simp add: run_system run_frames)
  from reconnect_issues_no_fetch [OF h, of "sys_run (mount_system ''processing'') [WsOpen 0]"]
  have "fetches (sys_run (sys_run (mount_system ''processing'') [WsOpen 0])
        [Render, WsClose 0, Render, WsOpen 2])
      = fetches (sys_run (mount_system ''processing'') [WsOpen 0])"
    by blast
  with h o r f show ?thesis
    by simp
qed

text \<open>
  C7: \<^verbatim>\<open>send\<close> drops the payload when there is no socket yet, transmits it on an open
  socket and drops it on a closed one; on the socket that the mount effect has just
  created, still connecting, it throws an InvalidStateError instead of dropping.
\<close>

theorem send_while_connecting_throws:
  "send p init_hook = Inr init_hook
   \<and> current_state (hook_effect True init_hook) = Some CONNECTING
   \<and> send p (hook_effect True init_hook) = Inl InvalidStateError
   \<and> send p (ws_onopen 0 (hook_effect True init_hook)) =
       Inr ((ws_onopen 0 (hook_effect True init_hook))\<lparr> transmitted := [p] \<rparr>)
   \<and> send p (ws_onclose 0 (ws_onopen 0 (hook_effect True init_hook))) =
       Inr (ws_onclose 0 (ws_onopen 0 (hook_effect True init_hook)))"
  by (simp add: send_def run_system Let_def)


section \<open>The batch aggregator\<close>

lemma counts_step:
  "status c \<in> {''queued'', ''processing'', ''completed'', ''failed''} \<Longrightarrow>
   completed (c # cs) + failed (c # cs) =
     completed cs + failed cs + (if status c = ''queued'' \<or> status c = ''processing'' then 0 else 1)"
  by (auto simp: completed_def failed_def)

lemma terminal_le_total: "completed cs + failed cs \<le> total cs"
  by (induction cs) (auto simp: completed_def failed_def total_def)

lemma hasActive_iff:
  "\<forall>c\<in>set cs. status c \<in> {''queued'', ''processing'', ''completed'', ''failed''} \<Longrightarrow>
   hasActive cs \<longleftrightarrow> completed cs + failed cs < total cs"
proof (induction cs)
  case Nil
  show ?case by (simp add: hasActive_def completed_def failed_def total_def)
next
  case (Cons c cs)
  then have ih: "hasActive cs \<longleftrightarrow> completed cs + failed cs < total cs"
    and st: "status c \<in> {''queued'', ''processing'', ''completed'', ''failed''}"
    by simp_all
  have h: "hasActive (c # cs) \<longleftrightarrow> (status c = ''queued'' \<or> status c = ''processing'') \<or> hasActive cs"
    by (simp add: hasActive_def)
  have t: "total (c # cs) = Suc (total cs)"
    by (simp add: total_def)
  show ?case
    using terminal_le_total [of cs] ih
    unfolding h t counts_step [OF st]
    by auto
qed

text \<open>
  C8: for every list of calls whose statuses are among queued, processing, completed and
  failed, the completed and failed counts together do not exceed the total, and some call
  is active exactly when they are below the total.
\<close>

theorem batch_counts_invariant:
  assumes "\<forall>c\<in>set cs. status c \<in> {''queued'', ''processing'', ''completed'', ''failed''}"
  shows "completed cs + failed cs \<le> total cs
       \<and> (hasActive cs \<longleftrightarrow> completed cs + failed cs < total cs)"
  using assms terminal_le_total [of cs] hasActive_iff [of cs] by blast

theorem batch_counts_invariant_witness:
  "total [\<lparr>call_id = 1, status = ''completed'', overall_score = Some 82\<rparr>,
          \<lparr>call_id = 2, status = ''failed'', overall_score = None\<rparr>,
          \<lparr>call_id = 3, status = ''completed'', overall_score = None\<rparr>,
          \<lparr>call_id = 4, status = ''processing'', overall_score = None\<rparr>,
          \<lparr>call_id = 5, status = ''queued'', overall_score = None\<rparr>] = 5
   \<and> completed [\<lparr>call_id = 1, status = ''completed'', overall_score = Some 82\<rparr>,
          \<lparr>call_id = 2, status = ''failed'', overall_score = None\<rparr>,
          \<lparr>call_id = 3, status = ''completed'', overall_score = None\<rparr>,
          \<lparr>call_id = 4, status = ''processing'', overall_score = None\<rparr>,
          \<lparr>call_id = 5, status = ''queued'', overall_score = None\<rparr>]
     + failed [\<lparr>call_id = 1, status = ''completed'', overall_score = Some 82\<rparr>,
          \<lparr>call_id = 2, status = ''failed'', overall_score = None\<rparr>,
          \<lparr>call_id = 3, status = ''completed'', overall_score = None\<rparr>,
          \<lparr>call_id = 4, status = ''processing'', overall_score = None\<rparr>,
          \<lparr>call_id = 5, status = ''queued'', overall_score = None\<rparr>] = 3
   \<and> hasActive [\<lparr>call_id = 1, status = ''completed'', overall_score = Some 82\<rparr>,
          \<lparr>call_id = 2, status = ''failed'', overall_score = None\<rparr>,
          \<lparr>call_id = 3, status = ''completed'', overall_score = None\<rparr>,
          \<lparr>call_id = 4, status = ''processing'', overall_score = None\<rparr>,
          \<lparr>call_id = 5, status = ''queued'', overall_score = None\<rparr>]"
proof -
  have h: "\<forall>c\<in>set [\<lparr>call_id = 1, status = ''completed'', overall_score = Some 82\<rparr>,
          \<lparr>call_id = 2, status = ''failed'', overall_score = None\<rparr>,
          \<lparr>call_id = 3, status = ''completed'', overall_score = None\<rparr>,
          \<lparr>call_id = 4, status = ''processing'', overall_score = None\<rparr>,
          \<lparr>call_id = 5, status = ''queued'', overall_score = None\<rparr>].
        status c \<in> {''queued'', ''processing'', ''completed'', ''failed''}"
    by simp
  have t: "total [\<lparr>call_id = 1, status = ''completed'', overall_score = Some 82\<rparr>,
          \<lparr>call_id = 2, status = ''failed'', overall_score = None\<rparr>,
          \<lparr>call_id = 3, status = ''completed'', overall_score = None\<rparr>,
          \<lparr>call_id = 4, status = ''processing'', overall_score = None\<rparr>,
          \<lparr>call_id = 5, status = ''queued'', overall_score = None\<rparr>] = 5"
    by (simp add: total_def)
  have n: "completed [\<lparr>call_id = 1, status = ''completed'', overall_score = Some 82\<rparr>,
          \<lparr>call_id = 2, status = ''failed'', overall_score = None\<rparr>,
          \<lparr>call_id = 3, status = ''completed'', overall_score = None\<rparr>,
          \<lparr>call_id = 4, status = ''processing'', overall_score = None\<rparr>,
          \<lparr>call_id = 5, status = ''queued'', overall_score = None\<rparr>]
     + failed [\<lparr>call_id = 1, status = ''completed'', overall_score = Some 82\<rparr>,
          \<lparr>call_id = 2, status = ''failed'', overall_score = None\<rparr>,
          \<lparr>call_id = 3, status = ''completed'', overall_score = None\<rparr>,
          \<lparr>call_id = 4, status = ''processing'', overall_score = None\<rparr>,
          \<lparr>call_id = 5, status = ''queued'', overall_score = None\<rparr>] = 3"
    by (simp add: completed_def failed_def)
  show ?thesis
    using batch_counts_invariant [OF h] t n by simp
qed

lemma batch_idle_step: "interval b = None \<Longrightarrow> inFlight b = 0 \<Longrightarrow> batch_step b e = b"
  by (cases e) simp_all

lemma batch_idle_run: "interval b = None \<Longrightarrow> inFlight b = 0 \<Longrightarrow> batch_run b es = b"
  unfolding batch_run_def
  by (induction es) (simp_all add: batch_idle_step)

text \<open>
  C9, as stated, fails in its last part: the interval is not cleared while a refresh is in
  flight, so two refreshes can overlap.  After the first list (one processing call) the
  interval is armed and ticks twice before either refresh settles; the first to settle
  reports the call completed and the interval is cancelled; the second, settling later
  with the call still processing, arms it again.
\<close>

theorem rearmed_by_overlapping_refresh_counterexample:
  "interval (batch_run batch_mount
      [Settled [\<lparr>call_id = 1, status = ''processing'', overall_score = None\<rparr>]]) = Some 5000
   \<and> \<not> hasActive (calls (batch_run batch_mount
      [Settled [\<lparr>call_id = 1, status = ''processing'', overall_score = None\<rparr>], Tick, Tick,
       Settled [\<lparr>call_id = 1, status = ''completed'', overall_score = Some 82\<rparr>]]))
   \<and> interval (batch_run batch_mount
      [Settled [\<lparr>call_id = 1, status = ''processing'', overall_score = None\<rparr>], Tick, Tick,
       Settled [\<lparr>call_id = 1, status = ''completed'', overall_score = Some 82\<rparr>]]) = None
   \<and> interval (batch_run batch_mount
      [Settled [\<lparr>call_id = 1, status = ''processing'', overall_score = None\<rparr>], Tick, Tick,
       Settled [\<lparr>call_id = 1, status = ''completed'', overall_score = Some 82\<rparr>],
       Settled [\<lparr>call_id = 1, status = ''processing'', overall_score = None\<rparr>]]) = Some 5000"
  by (simp add: batch_run_def batch_mount_def auto_refresh_def hasActive_def)

text \<open>
  C9, amended: when a refresh settles, the interval of 5000 ms is armed if and only if
  some call of the new list is active; when none is and no other refresh is in flight,
  no later event changes the state, so the scheduler is never armed again.
\<close>

theorem refresh_armed_iff_active:
  assumes "inFlight b > 0"
  shows "interval (batch_step b (Settled data)) = (if hasActive data then Some 5000 else None)
       \<and> (\<not> hasActive data \<and> inFlight b = 1 \<longrightarrow>
            batch_run (batch_step b (Settled data)) es = batch_step b (Settled data))"
proof -
  have i: "interval (batch_step b (Settled data)) = (if hasActive data then Some 5000 else None)"
    using assms by (simp add: auto_refresh_def)
  have "batch_run (batch_step b (Settled data)) es = batch_step b (Settled data)"
    if "\<not> hasActive data" and "inFlight b = 1"
  proof (rule batch_idle_run)
    show "interval (batch_step b (Settled data)) = None"
      using i that by simp
    show "inFlight (batch_step b (Settled data)) = 0"
      using that by simp
  qed
  with i show ?thesis by simp
qed

theorem refresh_armed_iff_active_witness:
  "inFlight batch_mount = 1
   \<and> \<not> hasActive [\<lparr>call_id = 1, status = ''completed'', overall_score = Some 82\<rparr>]
   \<and> interval (batch_step batch_mount
        (Settled [\<lparr>call_id = 1, status = ''completed'', overall_score = Some 82\<rparr>])) = None
   \<and> batch_run (batch_step batch_mount
        (Settled [\<lparr>call_id = 1, status = ''completed'', overall_score = Some 82\<rparr>]))
        [Tick, Settled [\<lparr>call_id = 1, status = ''processing'', overall_score = None\<rparr>], Rejected]
      = batch_step batch_mount
        (Settled [\<lparr>call_id = 1, status = ''completed'', overall_score = Some 82\<rparr>])
   \<and> hasActive [\<lparr>call_id = 2, status = ''queued'', overall_score = None\<rparr>]
   \<and> interval (batch_step batch_mount
        (Settled [\<lparr>call_id = 2, status = ''queued'', overall_score = None\<rparr>])) = Some 5000"
proof -
  have f: "inFlight batch_mount = 1"
    by (simp add: batch_mount_def)
  then have h: "inFlight batch_mount > 0"
    by simp
  have n: "\<not> hasActive [\<lparr>call_id = 1, status = ''completed'', overall_score = Some 82\<rparr>]"
    by (simp add: hasActive_def)
  have a: "hasActive [\<lparr>call_id = 2, status = ''queued'', overall_score = None\<rparr>]"
    by (simp add: hasActive_def)
  note t1 = refresh_armed_iff_active [OF h,
        of "[\<lparr>call_id = 1, status = ''completed'', overall_score = Some 82\<rparr>]"
           "[Tick, Settled [\<lparr>call_id = 1, status = ''processing'', overall_score = None\<rparr>], Rejected]"]
  note t2 = refresh_armed_iff_active [OF h,
        of "[\<lparr>call_id = 2, status = ''queued'', overall_score = None\<rparr>]" "[]"]
  from t1 n have i1: "interval (batch_step batch_mount
        (Settled [\<lparr>call_id = 1, status = ''completed'', overall_score = Some 82\<rparr>])) = None"
    by (simp only: if_False)
  from t1 n f have r1: "batch_run (batch_step batch_mount
        (Settled [\<lparr>call_id = 1, status = ''completed'', overall_score = Some 82\<rparr>]))
        [Tick, Settled [\<lparr>call_id = 1, status = ''processing'', overall_score = None\<rparr>], Rejected]
      = batch_step batch_mount
        (Settled [\<lparr>call_id = 1, status = ''completed'', overall_score = Some 82\<rparr>])"
    by blast
  from t2 a have i2: "interval (batch_step batch_mount
        (Settled [\<lparr>call_id = 2, status = ''queued'', overall_score = None\<rparr>])) = Some 5000"
    by (simp only: if_True)
  from f n i1 r1 a i2 show ?thesis
    by blast
qed

subsection \<open>The double-precision model\<close>

text \<open>
  \<open>to_double\<close> rounds to nearest with a significand of 53 bits: the result is an integer
  between \<open>2^52\<close> and \<open>2^53\<close> times a power of two, at most half a unit in the last place
  away from the argument.
\<close>

lemma round_half_even_error: "\<bar>of_int (round_half_even x) - x\<bar> \<le> 1 / 2"
proof -
  have "of_int \<lfloor>x\<rfloor> \<le> x" "x < of_int \<lfloor>x\<rfloor> + 1"
    by linarith+
  then show ?thesis
    by (auto simp: round_half_even_def Let_def)
qed

lemma round_half_even_floor:
  "\<lfloor>x\<rfloor> \<le> round_half_even x" "round_half_even x \<le> \<lfloor>x\<rfloor> + 1"
  by (simp_all add: round_half_even_def Let_def)

lemma to_double_error:
  assumes "x \<noteq> 0"
  shows "\<bar>to_double x - x\<bar> \<le> 2 powi (floor_log2 \<bar>x\<bar> - 53)"
proof -
  define k where "k = 52 - floor_log2 \<bar>x\<bar>"
  define m where "m = round_half_even (\<bar>x\<bar> * 2 powi k)"
  have p: "(2::rat) powi k > 0"
    by (simp add: zero_less_power_int)
  have td: "to_double x = sgn x * of_int m / 2 powi k"
    using assms by (simp add: to_double_def Let_def k_def m_def)
  have "sgn x * (of_int m / 2 powi k - \<bar>x\<bar>) = to_double x - sgn x * \<bar>x\<bar>"
    unfolding td by (simp add: algebra_simps)
  then have "to_double x - x = sgn x * (of_int m / 2 powi k - \<bar>x\<bar>)"
    by (simp add: sgn_mult_abs)
  then have "\<bar>to_double x - x\<bar> = \<bar>sgn x\<bar> * \<bar>of_int m / 2 powi k - \<bar>x\<bar>\<bar>"
    by (simp only: abs_mult)
  also have "\<dots> = \<bar>of_int m / 2 powi k - \<bar>x\<bar>\<bar>"
    using assms by (simp add: abs_sgn_eq)
  also have "\<dots> = \<bar>of_int m - \<bar>x\<bar> * 2 powi k\<bar> / 2 powi k"
    using p by (simp add: field_simps abs_divide)
  also have "\<dots> \<le> (1 / 2) / 2 powi k"
    using round_half_even_error [of "\<bar>x\<bar> * 2 powi k"] p
    unfolding m_def by (intro divide_right_mono) simp_all
  also have "\<dots> = 2 powi (floor_log2 \<bar>x\<bar> - 53)"
    by (simp add: k_def power_int_diff power_int_minus field_simps)
  finally show ?thesis .
qed

lemma int_bitlen_powi:
  assumes "0 < (p::int)"
  shows "(2::rat) powi (bitlen p - 1) \<le> of_int p" and "of_int p < (2::rat) powi bitlen p"
proof -
  from assms have b: "1 \<le> bitlen p"
    using bitlen_eq_zero_iff [of p] bitlen_nonneg [of p] by linarith
  from bitlen_bounds [OF assms] have l: "2 ^ nat (bitlen p - 1) \<le> p" and u: "p < 2 ^ nat (bitlen p)"
    by simp_all
  have "(2::rat) powi (bitlen p - 1) = 2 ^ nat (bitlen p - 1)"
    using b by (simp add: power_int_def)
  also have "\<dots> = of_int (2 ^ nat (bitlen p - 1))"
    by simp
  also have "\<dots> \<le> of_int p"
    using l by (simp only: of_int_le_iff)
  finally show "(2::rat) powi (bitlen p - 1) \<le> of_int p" .
  have "(of_int p :: rat) < of_int (2 ^ nat (bitlen p))"
    using u by (simp only: of_int_less_iff)
  also have "\<dots> = 2 powi bitlen p"
    using b by (simp add: power_int_def)
  finally show "of_int p < (2::rat) powi bitlen p" .
qed

lemma floor_log2_bounds:
  assumes "0 < x"
  shows "2 powi floor_log2 x \<le> x" and "x < 2 powi (floor_log2 x + 1)"
proof -
  obtain p q where pq: "quotient_of x = (p, q)"
    by (cases "quotient_of x")
  then have q: "0 < q" and x: "x = of_int p / of_int q"
    by (simp_all add: quotient_of_denom_pos quotient_of_div)
  from assms x q have p: "0 < p"
    by (simp add: zero_less_divide_iff)
  define d where "d = bitlen p - bitlen q"
  have fl: "floor_log2 x = (if 2 powi d \<le> x then d else d - 1)"
    by (simp add: floor_log2_def pq d_def Let_def)
  have qr: "0 < (of_int q :: rat)"
    using q by simp
  have up: "x < 2 powi (d + 1)"
  proof -
    have "x < 2 powi bitlen p / of_int q"
      unfolding x using int_bitlen_powi(2) [OF p] qr by (simp add: divide_strict_right_mono)
    also have "\<dots> \<le> 2 powi bitlen p / 2 powi (bitlen q - 1)"
      using int_bitlen_powi(1) [OF q] qr
      by (intro divide_left_mono) (simp_all add: zero_less_power_int zero_le_power_int)
    also have "\<dots> = 2 powi (d + 1)"
      by (simp add: d_def power_int_diff power_int_add field_simps)
    finally show ?thesis .
  qed
  have lo: "2 powi (d - 1) \<le> x"
  proof -
    have "(2::rat) powi (d - 1) = 2 powi (bitlen p - 1) / 2 powi bitlen q"
      by (simp add: d_def power_int_diff power_int_add field_simps)
    also have "\<dots> \<le> of_int p / 2 powi bitlen q"
      using int_bitlen_powi(1) [OF p] by (intro divide_right_mono) (simp_all add: zero_le_power_int)
    also have "\<dots> \<le> of_int p / of_int q"
      using int_bitlen_powi(2) [OF q] p qr
      by (intro divide_left_mono) (simp_all add: zero_less_power_int)
    finally show ?thesis by (simp add: x)
  qed
  show "2 powi floor_log2 x \<le> x"
    using lo by (simp add: fl)
  show "x < 2 powi (floor_log2 x + 1)"
    using up by (simp add: fl not_le)
qed

lemma to_double_significand:
  assumes "x \<noteq> 0"
  shows "2 ^ 52 \<le> round_half_even (\<bar>x\<bar> * 2 powi (52 - floor_log2 \<bar>x\<bar>))"
    and "round_half_even (\<bar>x\<bar> * 2 powi (52 - floor_log2 \<bar>x\<bar>)) \<le> 2 ^ 53"
proof -
  define e where "e = floor_log2 \<bar>x\<bar>"
  define y where "y = \<bar>x\<bar> * 2 powi (52 - e)"
  from assms have pos: "0 < \<bar>x\<bar>"
    by simp
  have s: "0 < (2::rat) powi (52 - e)"
    by (simp add: zero_less_power_int)
  have "2 powi e * 2 powi (52 - e) \<le> y"
    unfolding y_def e_def using floor_log2_bounds(1) [OF pos] s
    by (intro mult_right_mono) simp_all
  then have l: "2 ^ 52 \<le> y"
    by (simp add: power_int_add [symmetric])
  have "y < 2 powi (e + 1) * 2 powi (52 - e)"
    unfolding y_def e_def using floor_log2_bounds(2) [OF pos] s
    by (intro mult_strict_right_mono) simp_all
  then have u: "y < 2 ^ 53"
    by (simp add: power_int_add [symmetric])
  from l have "(2 ^ 52 :: int) \<le> \<lfloor>y\<rfloor>"
    by (simp add: le_floor_iff)
  with round_half_even_floor(1) [of y]
  show "2 ^ 52 \<le> round_half_even (\<bar>x\<bar> * 2 powi (52 - floor_log2 \<bar>x\<bar>))"
    unfolding y_def e_def by linarith
  from u have "\<lfloor>y\<rfloor> < (2 ^ 53 :: int)"
    by (simp add: floor_less_iff)
  with round_half_even_floor(2) [of y]
  show "round_half_even (\<bar>x\<bar> * 2 powi (52 - floor_log2 \<bar>x\<bar>)) \<le> 2 ^ 53"
    unfolding y_def e_def by linarith
qed

lemma to_double_rel_error:
  assumes "0 < x"
  shows "\<bar>to_double x - x\<bar> \<le> x / 2 ^ 53"
proof -
  from assms have nz: "x \<noteq> 0" and ax: "\<bar>x\<bar> = x"
    by simp_all
  have "\<bar>to_double x - x\<bar> \<le> 2 powi (floor_log2 x - 53)"
    using to_double_error [OF nz] by (simp add: ax)
  also have "\<dots> = 2 powi floor_log2 x / 2 ^ 53"
    by (simp add: power_int_diff)
  also have "\<dots> \<le> x / 2 ^ 53"
    using floor_log2_bounds(1) [OF assms] by (intro divide_right_mono) simp_all
  finally show ?thesis .
qed

lemma double_product_error:
  assumes "0 < r" and "r \<le> 1"
  shows "\<bar>to_double (to_double r * 100) - 100 * r\<bar> \<le> 300 / 2 ^ 53"
proof -
  define a where "a = to_double r"
  have ea: "\<bar>a - r\<bar> \<le> r / 2 ^ 53"
    unfolding a_def by (rule to_double_rel_error [OF assms(1)])
  have "r / 2 ^ 53 < r"
    using assms(1) by (simp add: field_simps)
  with ea have apos: "0 < a" and aup: "a \<le> r + r / 2 ^ 53"
    by linarith+
  from aup assms(2) have a2: "a \<le> 2"
    by (simp add: field_simps) 
  have eb: "\<bar>to_double (a * 100) - a * 100\<bar> \<le> a * 100 / 2 ^ 53"
    using apos by (intro to_double_rel_error) simp
  have "to_double (a * 100) - 100 * r = (to_double (a * 100) - a * 100) + 100 * (a - r)"
    by (simp add: algebra_simps)
  then have "\<bar>to_double (a * 100) - 100 * r\<bar> \<le> \<bar>to_double (a * 100) - a * 100\<bar> + \<bar>100 * (a - r)\<bar>"
    by (simp only: abs_triangle_ineq)
  also have "\<dots> = \<bar>to_double (a * 100) - a * 100\<bar> + 100 * \<bar>a - r\<bar>"
    by (simp only: abs_mult abs_numeral)
  also have "\<dots> \<le> a * 100 / 2 ^ 53 + 100 * (r / 2 ^ 53)"
    using ea eb by (intro add_mono mult_left_mono) simp_all
  also have "\<dots> \<le> 2 * 100 / 2 ^ 53 + 100 * (1 / 2 ^ 53)"
    using a2 assms(2) by (intro add_mono divide_right_mono mult_left_mono mult_right_mono) simp_all
  also have "\<dots> = 300 / 2 ^ 53"
    by simp
  finally show ?thesis
    by (simp add: a_def)
qed

text \<open>
  Off the ties the bar is exact: when \<open>100 * completed / total\<close> is not halfway between two
  integers (and the list is shorter than \<open>2^32\<close>, as every array is), the two roundings to
  double do not move the value across a rounding boundary, and the bar is the exact
  quotient rounded to the nearest integer.
\<close>

lemma completed_le_total: "completed cs \<le> total cs"
  by (simp add: completed_def total_def)

lemma floor_stable:
  fixes N D :: int and y :: rat
  assumes D: "0 < D" and nt: "N mod D \<noteq> 0"
    and e: "\<bar>y - of_int N / of_int D\<bar> < 1 / of_int D"
  shows "\<lfloor>y\<rfloor> = N div D"
proof (rule floor_unique)
  have m: "1 \<le> N mod D" "N mod D \<le> D - 1"
    using D nt pos_mod_sign [of D N] pos_mod_bound [of D N] by linarith+
  have dr: "0 < (of_int D :: rat)"
    using D by simp
  have "(of_int N :: rat) = of_int (N div D) * of_int D + of_int (N mod D)"
    by (simp flip: of_int_mult of_int_add)
  then have w: "(of_int N :: rat) / of_int D = of_int (N div D) + of_int (N mod D) / of_int D"
    using dr by (simp add: field_simps)
  have lo: "1 / of_int D \<le> (of_int (N mod D) :: rat) / of_int D"
    using m(1) dr by (intro divide_right_mono) simp_all
  have "(of_int (N mod D) :: rat) \<le> of_int (D - 1)"
    using m(2) by (simp only: of_int_le_iff)
  then have "(of_int (N mod D) :: rat) / of_int D \<le> of_int (D - 1) / of_int D"
    using dr by (intro divide_right_mono) simp_all
  also have "\<dots> = 1 - 1 / of_int D"
    using dr by (simp add: field_simps)
  finally have hi: "(of_int (N mod D) :: rat) / of_int D \<le> 1 - 1 / of_int D" .
  from e have "of_int N / of_int D - 1 / of_int D < y" "y < of_int N / of_int D + 1 / of_int D"
    by linarith+
  with lo hi show "of_int (N div D) \<le> y" "y < of_int (N div D) + 1"
    unfolding w by linarith+
qed

lemma progressPct_batch_exact_off_ties:
  assumes small: "total cs < 2 ^ 32"
    and nt: "(200 * completed cs + total cs) mod (2 * total cs) \<noteq> 0"
  shows "progressPct_batch cs =
           Math_round (100 * of_nat (completed cs) / of_nat (total cs))"
proof -
  define t where "t = total cs"
  define c where "c = completed cs"
  have ct: "c \<le> t"
    unfolding c_def t_def by (rule completed_le_total)
  have tpos: "0 < t"
  proof (rule ccontr)
    assume "\<not> 0 < t"
    with ct have "t = 0" "c = 0" by simp_all
    with nt show False by (simp add: t_def c_def)
  qed
  show ?thesis
  proof (cases "c = 0")
    case True
    with tpos show ?thesis
      by (simp add: progressPct_batch_def to_double_def Math_round_def flip: t_def c_def)
  next
    case False
    define r :: rat where "r = of_nat c / of_nat t"
    define N :: int where "N = int (200 * c + t)"
    define D :: int where "D = int (2 * t)"
    from False tpos ct have r: "0 < r" "r \<le> 1"
      by (simp_all add: r_def)
    have D: "0 < D" "D < 2 ^ 33"
      using tpos small by (simp_all add: D_def t_def)
    have ntI: "N mod D \<noteq> 0"
      using nt unfolding N_def D_def t_def c_def
      by (simp only: flip: zmod_int)
    have w: "100 * r + 1 / 2 = of_int N / of_int D"
      using tpos by (simp add: r_def N_def D_def field_simps)
    have "(300::rat) / 2 ^ 53 < 1 / 2 ^ 33"
      by simp
    also have "\<dots> < 1 / of_int D"
    proof -
      have "(of_int D :: rat) < of_int (2 ^ 33)"
        using D(2) by (simp only: of_int_less_iff)
      with D(1) show ?thesis
        by (simp add: field_simps)
    qed
    finally have d: "(300::rat) / 2 ^ 53 < 1 / of_int D" .
    have "\<bar>(to_double (to_double r * 100) + 1 / 2) - of_int N / of_int D\<bar>
            = \<bar>to_double (to_double r * 100) - 100 * r\<bar>"
      by (simp flip: w)
    also have "\<dots> \<le> 300 / 2 ^ 53"
      by (rule double_product_error [OF r])
    finally have "\<bar>(to_double (to_double r * 100) + 1 / 2) - of_int N / of_int D\<bar> < 1 / of_int D"
      using d by linarith
    then have code: "\<lfloor>to_double (to_double r * 100) + 1 / 2\<rfloor> = N div D"
      by (rule floor_stable [OF D(1) ntI])
    have "\<bar>(100 * r + 1 / 2) - of_int N / of_int D\<bar> < 1 / of_int D"
      using D(1) by (simp add: w)
    then have exact: "\<lfloor>100 * r + 1 / 2\<rfloor> = N div D"
      by (rule floor_stable [OF D(1) ntI])
    from tpos code exact show ?thesis
      by (simp add: progressPct_batch_def Math_round_def r_def flip: t_def c_def)
  qed
qed

text \<open>
  C10: the bar is computed in double precision as \<^verbatim>\<open>Math.round((completed / total) * 100)\<close>.
  At a tie the two roundings can fall short: for a batch of 40 calls of which 23 are
  completed, the quotient and the product round to a double just below 57.5, so the bar
  shows 57 where the exact value 57.5 rounds to 58.  An empty batch shows 0.
\<close>

theorem progress_bar_rounds_down_at_23_of_40:
  "total (map (\<lambda>i. \<lparr>call_id = int i,
                     status = (if i \<le> 23 then ''completed'' else ''queued''),
                     overall_score = None\<rparr>) [1..<41]) = 40
   \<and> completed (map (\<lambda>i. \<lparr>call_id = int i,
                     status = (if i \<le> 23 then ''completed'' else ''queued''),
                     overall_score = None\<rparr>) [1..<41]) = 23
   \<and> progressPct_batch (map (\<lambda>i. \<lparr>call_id = int i,
                     status = (if i \<le> 23 then ''completed'' else ''queued''),
                     overall_score = None\<rparr>) [1..<41]) = 57
   \<and> Math_round (100 * 23 / 40) = 58
   \<and> progressPct_batch [] = 0"
  by code_simp

end
